theory Spec2Isabelle
  imports Main "HOL-Library.Word"
begin

section \<open>JavaScript strings\<close>

text \<open>
  A JavaScript string is a sequence of UTF-16 code units; \<open>length\<close>, \<open>substring\<close>,
  \<open>startsWith\<close>, \<open>endsWith\<close> and the regular expressions of the source (none has the
  \<open>u\<close> flag) all work on code units.
\<close>

type_synonym jschar = "16 word"
type_synonym jsstring = "jschar list"

definition js :: "string \<Rightarrow> jsstring" where
  "js s = map of_char s"

text \<open>
  ECMAScript WhiteSpace and LineTerminator code points: what \<open>\s\<close> matches and what
  \<open>String.prototype.trim\<close> strips.
\<close>

definition is_space :: "jschar \<Rightarrow> bool" where
  "is_space c \<longleftrightarrow>
     c = 0x09 \<or> c = 0x0A \<or> c = 0x0B \<or> c = 0x0C \<or> c = 0x0D \<or> c = 0x20 \<or> c = 0xA0 \<or>
     c = 0x1680 \<or> (0x2000 \<le> c \<and> c \<le> 0x200A) \<or> c = 0x2028 \<or> c = 0x2029 \<or>
     c = 0x202F \<or> c = 0x205F \<or> c = 0x3000 \<or> c = 0xFEFF"

definition is_digit :: "jschar \<Rightarrow> bool" where
  "is_digit c \<longleftrightarrow> 0x30 \<le> c \<and> c \<le> 0x39"

definition is_upper :: "jschar \<Rightarrow> bool" where
  "is_upper c \<longleftrightarrow> 0x41 \<le> c \<and> c \<le> 0x5A"

definition is_lower :: "jschar \<Rightarrow> bool" where
  "is_lower c \<longleftrightarrow> 0x61 \<le> c \<and> c \<le> 0x7A"

text \<open>\<open>\w\<close> is \<open>[A-Za-z0-9_]\<close>.\<close>

definition is_word :: "jschar \<Rightarrow> bool" where
  "is_word c \<longleftrightarrow> is_lower c \<or> is_upper c \<or> is_digit c \<or> c = 0x5F"

definition is_hyphen :: "jschar \<Rightarrow> bool" where
  "is_hyphen c \<longleftrightarrow> c = 0x2D"

definition is_ascii :: "jschar \<Rightarrow> bool" where
  "is_ascii c \<longleftrightarrow> c < 0x80"

definition trim :: "jsstring \<Rightarrow> jsstring" where
  "trim s = rev (dropWhile is_space (rev (dropWhile is_space s)))"

definition ascii_lower :: "jschar \<Rightarrow> jschar" where
  "ascii_lower c = (if is_upper c then c + 0x20 else c)"

text \<open>
  \<open>String.prototype.toLowerCase\<close>. On a string of ASCII code units it maps \<open>A-Z\<close> to
  \<open>a-z\<close> and keeps everything else. Beyond ASCII the result comes from the Unicode case
  tables of the host, which are no part of the repository: they are the parameter \<open>U\<close>.
\<close>

definition toLowerCase :: "(jsstring \<Rightarrow> jsstring) \<Rightarrow> jsstring \<Rightarrow> jsstring" where
  "toLowerCase U s = (if list_all is_ascii s then map ascii_lower s else U s)"

definition startsWith :: "jsstring \<Rightarrow> jsstring \<Rightarrow> bool" where
  "startsWith s p \<longleftrightarrow> take (length p) s = p"

definition endsWith :: "jsstring \<Rightarrow> jsstring \<Rightarrow> bool" where
  "endsWith s p \<longleftrightarrow> length p \<le> length s \<and> drop (length s - length p) s = p"

section \<open>sanitizeFilename\<close>

text \<open>\<open>/[`"']/g\<close>: the three quote characters.\<close>

definition is_quote :: "jschar \<Rightarrow> bool" where
  "is_quote c \<longleftrightarrow> c = 0x60 \<or> c = 0x22 \<or> c = 0x27"

text \<open>
  \<open>s.replace(/\.\w{2,4}$/, "")\<close> and \<open>/(\.\w{2,5})$/\<close>: the matcher tries each start index
  from the left; at an index it succeeds when the code unit is a dot and the rest of the
  input is between \<open>lo\<close> and \<open>hi\<close> word characters. \<open>match_ext\<close> returns the text before
  the match and the match itself.
\<close>

fun match_ext :: "nat \<Rightarrow> nat \<Rightarrow> jsstring \<Rightarrow> (jsstring \<times> jsstring) option" where
  "match_ext lo hi [] = None"
| "match_ext lo hi (c # cs) =
     (if c = 0x2E \<and> lo \<le> length cs \<and> length cs \<le> hi \<and> list_all is_word cs
      then Some ([], c # cs)
      else map_option (\<lambda>(pre, m). (c # pre, m)) (match_ext lo hi cs))"

definition remove_ext :: "jsstring \<Rightarrow> jsstring" where
  "remove_ext s = (case match_ext 2 4 s of None \<Rightarrow> s | Some (pre, m) \<Rightarrow> pre)"

text \<open>\<open>s.replace(/[\s_]+/g, "-")\<close>: every maximal run becomes one hyphen.\<close>

definition is_space_us :: "jschar \<Rightarrow> bool" where
  "is_space_us c \<longleftrightarrow> is_space c \<or> c = 0x5F"

function hyphenate :: "jsstring \<Rightarrow> jsstring" where
  "hyphenate [] = []"
| "hyphenate (c # cs) =
     (if is_space_us c then 0x2D # hyphenate (dropWhile is_space_us cs)
      else c # hyphenate cs)"
  by pat_completeness auto
termination
  by (relation "measure length") (auto simp: less_Suc_eq_le length_dropWhile_le)

text \<open>
  \<open>s.replace(/[^a-z0-9-]/gi, "")\<close>: with the \<open>i\<close> flag and no \<open>u\<close> flag a code unit is
  compared after \<open>toUpperCase\<close>, which never takes a code unit outside ASCII into ASCII,
  so the class keeps exactly \<open>[A-Za-z0-9-]\<close>.
\<close>

definition is_kept :: "jschar \<Rightarrow> bool" where
  "is_kept c \<longleftrightarrow> is_lower c \<or> is_upper c \<or> is_digit c \<or> is_hyphen c"

text \<open>\<open>s.replace(/-{2,}/g, "-")\<close>: a run of two or more hyphens becomes one.\<close>

function collapse :: "jsstring \<Rightarrow> jsstring" where
  "collapse [] = []"
| "collapse [c] = [c]"
| "collapse (c # d # cs) =
     (if is_hyphen c \<and> is_hyphen d then 0x2D # collapse (dropWhile is_hyphen cs)
      else c # collapse (d # cs))"
  by pat_completeness auto
termination
  by (relation "measure length")
     (auto simp: less_Suc_eq_le intro: le_trans [OF length_dropWhile_le])

text \<open>
  \<open>s.replace(/-+$/, "")\<close>: the leftmost index from which the rest of the input is one
  run of hyphens.
\<close>

fun strip_trailing :: "jsstring \<Rightarrow> jsstring" where
  "strip_trailing [] = []"
| "strip_trailing (c # cs) =
     (if is_hyphen c \<and> list_all is_hyphen cs then [] else c # strip_trailing cs)"

text \<open>
  \<open>s.replace(/^-+|-+$/g, "")\<close>: the first alternative matches a run of hyphens at index
  0 only; after it the second alternative is the search of \<open>strip_trailing\<close>.
\<close>

definition trim_hyphens :: "jsstring \<Rightarrow> jsstring" where
  "trim_hyphens s = strip_trailing (dropWhile is_hyphen s)"

text \<open>\<open>s.substring(i, j)\<close>: the arguments are swapped when \<open>i > j\<close> and clamped to the length.\<close>

definition substring :: "jsstring \<Rightarrow> nat \<Rightarrow> nat \<Rightarrow> jsstring" where
  "substring s i j = drop (min i j) (take (max i j) s)"

text \<open>The value of \<open>clean\<close> after its seventh assignment (edge hyphens trimmed).\<close>

definition sanitize_seven :: "(jsstring \<Rightarrow> jsstring) \<Rightarrow> jsstring \<Rightarrow> jsstring" where
  "sanitize_seven U name =
     (let clean = trim (filter (\<lambda>c. \<not> is_quote c) name);
          clean = remove_ext clean;
          clean = hyphenate clean;
          clean = filter is_kept clean;
          clean = toLowerCase U clean;
          clean = collapse clean
      in trim_hyphens clean)"

text \<open>The value of \<open>clean\<close> after the length limit, before the \<open>return\<close>.\<close>

definition sanitize_eight :: "(jsstring \<Rightarrow> jsstring) \<Rightarrow> jsstring \<Rightarrow> jsstring" where
  "sanitize_eight U name =
     (let clean = sanitize_seven U name
      in if length clean > 60 then strip_trailing (substring clean 0 60) else clean)"

definition sanitizeFilename :: "(jsstring \<Rightarrow> jsstring) \<Rightarrow> jsstring \<Rightarrow> jsstring" where
  "sanitizeFilename U name =
     (let clean = sanitize_eight U name
      in if clean = [] then js ''unnamed-file'' else clean)"

text \<open>The regular expression \<open>^[a-z0-9-]*$\<close>.\<close>

definition is_out_char :: "jschar \<Rightarrow> bool" where
  "is_out_char c \<longleftrightarrow> is_lower c \<or> is_digit c \<or> is_hyphen c"

definition matches_safe :: "jsstring \<Rightarrow> bool" where
  "matches_safe s \<longleftrightarrow> list_all is_out_char s"

text \<open>No two adjacent hyphens.\<close>

definition no_double :: "jsstring \<Rightarrow> bool" where
  "no_double s \<longleftrightarrow> successively (\<lambda>a b. \<not> (is_hyphen a \<and> is_hyphen b)) s"

text \<open>
  The shape of a finished name: safe characters only, at most 60 of them, not empty, no
  hyphen at either end and no two hyphens in a row.
\<close>

definition is_clean_name :: "jsstring \<Rightarrow> bool" where
  "is_clean_name t \<longleftrightarrow>
     list_all is_out_char t \<and> length t \<le> 60 \<and> no_double t \<and> t \<noteq> [] \<and>
     \<not> is_hyphen (hd t) \<and> \<not> is_hyphen (last t)"

subsection \<open>The eight steps as the specification words them\<close>

text \<open>Step 1: strip backtick, double-quote and single-quote characters, then trim whitespace.\<close>

definition spec_step1 :: "jsstring \<Rightarrow> jsstring" where
  "spec_step1 s = trim [c \<leftarrow> s. c \<notin> {0x60, 0x22, 0x27}]"

text \<open>Step 2: remove a trailing dot-extension of 2 to 4 word characters if present.\<close>

definition has_dot_ext :: "nat \<Rightarrow> jsstring \<Rightarrow> bool" where
  "has_dot_ext k s \<longleftrightarrow>
     k < length s \<and> s ! (length s - Suc k) = 0x2E \<and> list_all is_word (drop (length s - k) s)"

definition spec_step2 :: "jsstring \<Rightarrow> jsstring" where
  "spec_step2 s =
     (case find (\<lambda>k. has_dot_ext k s) [2, 3, 4] of
        Some k \<Rightarrow> take (length s - Suc k) s
      | None \<Rightarrow> s)"

text \<open>
  Steps 3 and 6: a run of characters of a class becomes a single hyphen. \<open>squeeze\<close> reads
  the string once, remembering whether the previous character was in the class.
\<close>

fun squeeze :: "(jschar \<Rightarrow> bool) \<Rightarrow> bool \<Rightarrow> jsstring \<Rightarrow> jsstring" where
  "squeeze P prev [] = []"
| "squeeze P prev (c # cs) =
     (if P c then (if prev then squeeze P True cs else 0x2D # squeeze P True cs)
      else c # squeeze P False cs)"

definition spec_step3 :: "jsstring \<Rightarrow> jsstring" where
  "spec_step3 s = squeeze (\<lambda>c. is_space c \<or> c = 0x5F) False s"

text \<open>Step 4: drop every character that is not an ASCII letter, digit or hyphen.\<close>

definition spec_step4 :: "jsstring \<Rightarrow> jsstring" where
  "spec_step4 s = [c \<leftarrow> s. is_lower c \<or> is_upper c \<or> is_digit c \<or> c = 0x2D]"

text \<open>Step 5: lower-case the whole string.\<close>

definition spec_step5 :: "jsstring \<Rightarrow> jsstring" where
  "spec_step5 s = map ascii_lower s"

definition spec_step6 :: "jsstring \<Rightarrow> jsstring" where
  "spec_step6 s = squeeze (\<lambda>c. c = 0x2D) False s"

text \<open>Step 7: trim leading and trailing hyphens.\<close>

definition spec_step7 :: "jsstring \<Rightarrow> jsstring" where
  "spec_step7 s = rev (dropWhile (\<lambda>c. c = 0x2D) (rev (dropWhile (\<lambda>c. c = 0x2D) s)))"

text \<open>Step 8: truncate to 60 characters; if that leaves a trailing hyphen, strip it.\<close>

definition spec_step8 :: "jsstring \<Rightarrow> jsstring" where
  "spec_step8 s = (let t = take 60 s in if t \<noteq> [] \<and> last t = 0x2D then butlast t else t)"

definition spec_sanitize :: "jsstring \<Rightarrow> jsstring" where
  "spec_sanitize s =
     (let r = (spec_step8 \<circ> spec_step7 \<circ> spec_step6 \<circ> spec_step5 \<circ>
               spec_step4 \<circ> spec_step3 \<circ> spec_step2 \<circ> spec_step1) s
      in if r = [] then js ''unnamed-file'' else r)"

section \<open>getExtension and getExtensionFromMime\<close>

text \<open>
  What \<open>getExtensionFromMime\<close> can return: a string, or the value found under an
  inherited key of \<open>Object.prototype\<close> (a built-in function, or \<open>Object.prototype\<close>
  itself for \<open>__proto__\<close>), which is truthy and is not a string.
\<close>

datatype jsvalue = JString jsstring | JInherited jsstring

text \<open>The own properties of the object literal \<open>map\<close>.\<close>

definition mime_table :: "(jsstring \<times> jsstring) list" where
  "mime_table =
     [(js ''image/jpeg'', js ''.jpg''),
      (js ''image/png'', js ''.png''),
      (js ''image/gif'', js ''.gif''),
      (js ''image/webp'', js ''.webp''),
      (js ''image/bmp'', js ''.bmp''),
      (js ''image/svg+xml'', js ''.svg''),
      (js ''image/x-icon'', js ''.ico''),
      (js ''image/tiff'', js ''.tiff'')]"

text \<open>
  The property names of \<open>Object.prototype\<close>, the prototype of every object literal. A
  property read \<open>map[key]\<close> that finds no own property continues there.
\<close>

definition object_prototype_keys :: "jsstring list" where
  "object_prototype_keys =
     [js ''constructor'', js ''__defineGetter__'', js ''__defineSetter__'',
      js ''hasOwnProperty'', js ''__lookupGetter__'', js ''__lookupSetter__'',
      js ''isPrototypeOf'', js ''propertyIsEnumerable'', js ''toString'', js ''valueOf'',
      js ''__proto__'', js ''toLocaleString'']"

text \<open>
  \<open>map[mime]\<close>: an undefined \<open>mime\<close> becomes the key \<open>"undefined"\<close>; \<open>None\<close> is the
  value \<open>undefined\<close> of a key found nowhere on the prototype chain.
\<close>

definition map_get :: "jsstring option \<Rightarrow> jsvalue option" where
  "map_get mime =
     (let key = (case mime of None \<Rightarrow> js ''undefined'' | Some m \<Rightarrow> m)
      in case map_of mime_table key of
           Some ext \<Rightarrow> Some (JString ext)
         | None \<Rightarrow> if key \<in> set object_prototype_keys then Some (JInherited key) else None)"

text \<open>\<open>v || ".png"\<close>: the empty string and \<open>undefined\<close> are falsy.\<close>

definition getExtensionFromMime :: "jsstring option \<Rightarrow> jsvalue" where
  "getExtensionFromMime mime =
     (case map_get mime of
        None \<Rightarrow> JString (js ''.png'')
      | Some (JString s) \<Rightarrow> if s = [] then JString (js ''.png'') else JString s
      | Some (JInherited k) \<Rightarrow> JInherited k)"

text \<open>\<open>x || ""\<close> for a string or \<open>undefined\<close>.\<close>

definition or_empty :: "jsstring option \<Rightarrow> jsstring" where
  "or_empty x = (case x of None \<Rightarrow> [] | Some s \<Rightarrow> s)"

definition getExtension ::
  "(jsstring \<Rightarrow> jsstring) \<Rightarrow> jsstring option \<Rightarrow> jsstring option \<Rightarrow> jsvalue" where
  "getExtension U filename mime =
     (case match_ext 2 5 (or_empty filename) of
        Some (pre, m) \<Rightarrow> JString (toLowerCase U m)
      | None \<Rightarrow> getExtensionFromMime mime)"

text \<open>What the specification calls a string beginning with a dot.\<close>

definition is_dot_string :: "jsvalue \<Rightarrow> bool" where
  "is_dot_string v \<longleftrightarrow> (case v of JString s \<Rightarrow> s \<noteq> [] \<and> hd s = 0x2E | JInherited k \<Rightarrow> False)"

section \<open>The rename history\<close>

record RenameEvent =
  original :: "jsstring option"
  renamed :: jsstring
  timestamp :: int

text \<open>
  The key \<open>renameHistory\<close> of \<open>chrome.storage.local\<close>: absent (\<open>None\<close>) until the first
  write. Both readers destructure with the default \<open>[]\<close>.
\<close>

type_synonym storage = "RenameEvent list option"

definition list_history :: "storage \<Rightarrow> RenameEvent list" where
  "list_history st = (case st of None \<Rightarrow> [] | Some h \<Rightarrow> h)"

text \<open>
  \<open>logRename\<close>, with the reading of \<open>Date.now()\<close> as the argument \<open>now\<close>:
  \<open>unshift\<close> prepends, and setting \<open>length = 50\<close> on a longer array keeps its first 50
  elements.
\<close>

definition logRename :: "int \<Rightarrow> jsstring option \<Rightarrow> jsstring \<Rightarrow> storage \<Rightarrow> storage" where
  "logRename now originalName newName st =
     (let renameHistory = list_history st;
          renameHistory = \<lparr>original = originalName, renamed = newName, timestamp = now\<rparr>
                          # renameHistory;
          renameHistory = (if length renameHistory > 50 then take 50 renameHistory
                           else renameHistory)
      in Some renameHistory)"

text \<open>A sequence of calls, each with its clock reading and its two names, oldest first.\<close>

fun record_all :: "(int \<times> jsstring option \<times> jsstring) list \<Rightarrow> storage \<Rightarrow> storage" where
  "record_all [] st = st"
| "record_all ((now, orig, new) # calls) st = record_all calls (logRename now orig new st)"

definition event_of :: "int \<times> jsstring option \<times> jsstring \<Rightarrow> RenameEvent" where
  "event_of call =
     (case call of (now, orig, new) \<Rightarrow> \<lparr>original = orig, renamed = new, timestamp = now\<rparr>)"

text \<open>Timestamps non-increasing from head to tail; clock readings non-decreasing.\<close>

definition newest_first :: "RenameEvent list \<Rightarrow> bool" where
  "newest_first h \<longleftrightarrow> sorted_wrt (\<lambda>a b. timestamp b \<le> timestamp a) h"

definition nondecreasing :: "int list \<Rightarrow> bool" where
  "nondecreasing ts \<longleftrightarrow> sorted_wrt (\<lambda>a b. a \<le> b) ts"

section \<open>timeAgo\<close>

text \<open>
  The decimal digits of a non-negative integer, as a template literal prints a number
  below \<open>10\<^sup>2\<^sup>1\<close>.
\<close>

function decimal :: "nat \<Rightarrow> jsstring" where
  "decimal n = (if n < 10 then [of_nat (48 + n)] else decimal (n div 10) @ [of_nat (48 + n mod 10)])"
  by pat_completeness auto
termination
  by (relation "measure id") auto

declare decimal.simps [simp del]

definition number_to_string :: "int \<Rightarrow> jsstring" where
  "number_to_string i = (if i < 0 then 0x2D # decimal (nat (- i)) else decimal (nat i))"

text \<open>
  \<open>timeAgo\<close>, with the reading of \<open>Date.now()\<close> as the argument \<open>now\<close>. Timestamps are
  integers of milliseconds, far below \<open>2\<^sup>5\<^sup>3\<close>, so the subtraction is exact and
  \<open>Math.floor\<close> of each quotient is the integer quotient rounded down.
\<close>

definition timeAgo :: "int \<Rightarrow> int \<Rightarrow> jsstring" where
  "timeAgo now ts =
     (let seconds = (now - ts) div 1000 in
      if seconds < 60 then js ''Just now''
      else let minutes = seconds div 60 in
        if minutes < 60 then number_to_string minutes @ js ''m ago''
        else let hours = minutes div 60 in
          if hours < 24 then number_to_string hours @ js ''h ago''
          else let days = hours div 24 in number_to_string days @ js ''d ago'')"

section \<open>The download listener\<close>

definition IMAGE_EXTENSIONS :: "jsstring list" where
  "IMAGE_EXTENSIONS =
     [js ''.jpg'', js ''.jpeg'', js ''.png'', js ''.gif'', js ''.webp'', js ''.bmp'', js ''.svg'']"

text \<open>\<open>mime && mime.startsWith("image/")\<close>: \<open>undefined\<close> and the empty string are falsy.\<close>

definition isImageFile ::
  "(jsstring \<Rightarrow> jsstring) \<Rightarrow> jsstring option \<Rightarrow> jsstring option \<Rightarrow> bool" where
  "isImageFile U mime_arg filename_arg =
     (if or_empty mime_arg \<noteq> [] \<and> startsWith (or_empty mime_arg) (js ''image/'') then True
      else let lower = toLowerCase U (or_empty filename_arg)
           in list_ex (\<lambda>ext. endsWith lower ext) IMAGE_EXTENSIONS)"

record DownloadItem =
  item_url :: jsstring
  item_filename :: "jsstring option"
  item_mime :: "jsstring option"

text \<open>
  What the awaited calls of \<open>handleDownloadRename\<close> deliver: \<open>getSettings()\<close> (\<open>None\<close>
  when the promise rejects), \<open>fetchImageAsBase64(url)\<close> (\<open>null\<close> or the pair of
  \<open>mimeType\<close> and \<open>data\<close>; it catches its own errors) and the request of
  \<open>getAIFilename\<close>.
\<close>

datatype gemini_result =
    Rejected \<comment> \<open>\<open>fetch\<close> or \<open>response.json()\<close> throws\<close>
  | NotOk \<comment> \<open>\<open>response.ok\<close> is false\<close>
  | Reply "jsstring option" \<comment> \<open>the text of the first candidate, or \<open>undefined\<close>\<close>

record environment =
  stored_settings :: "(bool \<times> jsstring) option"
  fetched_image :: "(jsstring \<times> jsstring) option"
  gemini :: gemini_result

text \<open>
  The calls a run of the listener makes, in order: \<open>suggest()\<close> or
  \<open>suggest({filename})\<close>, \<open>sanitizeFilename(text)\<close>, \<open>getExtension(filename, mime)\<close>,
  \<open>logRename(original, renamed)\<close> and \<open>chrome.action.setBadgeText\<close>.
\<close>

datatype effect =
    Suggest "jsstring option"
  | Sanitize jsstring
  | GetExtension "jsstring option" "jsstring option"
  | LogRename "jsstring option" jsstring
  | SetBadgeText jsstring

text \<open>
  A value inside a template literal: a string as it is, an inherited member of
  \<open>Object.prototype\<close> as V8 prints it.
\<close>

definition to_string :: "jsvalue \<Rightarrow> jsstring" where
  "to_string v =
     (case v of
        JString s \<Rightarrow> s
      | JInherited k \<Rightarrow>
          if k = js ''__proto__'' then js ''[object Object]''
          else js ''function '' @ (if k = js ''constructor'' then js ''Object'' else k)
               @ js ''() { [native code] }'')"

text \<open>
  \<open>getAIFilename\<close> from the answer of the request on: \<open>None\<close> is an exception, otherwise
  the calls made and the name or \<open>null\<close>.
\<close>

definition getAIFilename ::
  "(jsstring \<Rightarrow> jsstring) \<Rightarrow> gemini_result \<Rightarrow> (effect list \<times> jsstring option) option" where
  "getAIFilename U g =
     (case g of
        Rejected \<Rightarrow> None
      | NotOk \<Rightarrow> Some ([], None)
      | Reply None \<Rightarrow> Some ([], None)
      | Reply (Some text) \<Rightarrow>
          if text = [] then Some ([], None)
          else Some ([Sanitize (trim text)], Some (sanitizeFilename U (trim text))))"

definition handleDownloadRename ::
  "(jsstring \<Rightarrow> jsstring) \<Rightarrow> environment \<Rightarrow> DownloadItem \<Rightarrow> effect list" where
  "handleDownloadRename U env downloadItem =
     (case stored_settings env of
        None \<Rightarrow> [Suggest None]
      | Some (enabled, apiKey) \<Rightarrow>
          (if \<not> enabled \<or> apiKey = [] then [Suggest None]
           else (case fetched_image env of
              None \<Rightarrow> [Suggest None]
            | Some (mimeType, data) \<Rightarrow>
                (case getAIFilename U (gemini env) of
                   None \<Rightarrow> [Suggest None]
                 | Some (calls, None) \<Rightarrow> calls @ [Suggest None]
                 | Some (calls, Some aiName) \<Rightarrow>
                     (if aiName = [] then calls @ [Suggest None]
                      else
                        (let ext = getExtension U (item_filename downloadItem)
                                     (item_mime downloadItem);
                             newFilename = aiName @ to_string ext
                         in calls @
                            ([GetExtension (item_filename downloadItem) (item_mime downloadItem),
                              LogRename (item_filename downloadItem) newFilename,
                              SetBadgeText (js ''AI''),
                              Suggest (Some newFilename)])))))))"

text \<open>
  The listener of \<open>chrome.downloads.onDeterminingFilename\<close>: the calls it makes and
  whether it returns \<open>true\<close>.
\<close>

definition onDeterminingFilename ::
  "(jsstring \<Rightarrow> jsstring) \<Rightarrow> environment \<Rightarrow> DownloadItem \<Rightarrow> effect list \<times> bool" where
  "onDeterminingFilename U env downloadItem =
     (let mime_v = or_empty (item_mime downloadItem);
          filename_v = or_empty (item_filename downloadItem)
      in if \<not> isImageFile U (Some mime_v) (Some filename_v) then ([Suggest None], False)
         else (handleDownloadRename U env downloadItem, True))"

definition renames :: "effect \<Rightarrow> bool" where
  "renames e \<longleftrightarrow>
     (case e of
        Suggest None \<Rightarrow> False
      | Suggest (Some name) \<Rightarrow> True
      | Sanitize text \<Rightarrow> True
      | GetExtension f m \<Rightarrow> True
      | LogRename orig new \<Rightarrow> True
      | SetBadgeText t \<Rightarrow> False)"

section \<open>Character classes\<close>

lemmas char_class_defs =
  is_space_def is_digit_def is_upper_def is_lower_def is_word_def is_hyphen_def
  is_ascii_def is_quote_def is_space_us_def is_kept_def is_out_char_def

lemma dot_not_word: "\<not> is_word 0x2E"
  unfolding char_class_defs by simp

lemma word_ascii: "is_word c \<Longrightarrow> is_ascii c"
  unfolding char_class_defs by (auto simp: word_le_nat_alt word_less_nat_alt)

lemma kept_ascii: "is_kept c \<Longrightarrow> is_ascii c"
  unfolding char_class_defs by (auto simp: word_le_nat_alt word_less_nat_alt)

lemma kept_lower_out: "is_kept c \<Longrightarrow> is_out_char (ascii_lower c)"
  unfolding char_class_defs ascii_lower_def
  by (auto simp: word_le_nat_alt unat_word_ariths)

lemma out_lower_id: "is_out_char c \<Longrightarrow> ascii_lower c = c"
  unfolding char_class_defs ascii_lower_def
  by (auto simp: word_le_nat_alt)

lemma out_kept: "is_out_char c \<Longrightarrow> is_kept c"
  unfolding char_class_defs by auto

lemma out_not_quote: "is_out_char c \<Longrightarrow> \<not> is_quote c"
  unfolding char_class_defs by (auto simp: word_le_nat_alt)

lemma out_not_space_us: "is_out_char c \<Longrightarrow> \<not> is_space_us c"
  unfolding char_class_defs by (auto simp: word_le_nat_alt)

lemma out_not_dot: "is_out_char c \<Longrightarrow> c \<noteq> 0x2E"
  unfolding char_class_defs by (auto simp: word_le_nat_alt)

lemma hyphen_out: "is_hyphen c \<Longrightarrow> is_out_char c"
  unfolding char_class_defs by auto

lemma out_not_space: "is_out_char c \<Longrightarrow> \<not> is_space c"
  unfolding char_class_defs by (auto simp: word_le_nat_alt)

section \<open>Properties of getExtension\<close>

lemma match_ext_Some:
  assumes "lo \<le> length w" "length w \<le> hi" "list_all is_word w"
  shows "match_ext lo hi (p @ 0x2E # w) = Some (p, 0x2E # w)"
proof (induction p)
  case Nil
  then show ?case using assms by simp
next
  case (Cons c p)
  have "\<not> list_all is_word (p @ 0x2E # w)"
    by (simp add: dot_not_word)
  then show ?case using Cons.IH by simp
qed

lemma match_ext_SomeD:
  "match_ext lo hi s = Some (pre, m) \<Longrightarrow>
   s = pre @ m \<and> (\<exists>w. m = 0x2E # w \<and> lo \<le> length w \<and> length w \<le> hi \<and> list_all is_word w)"
proof (induction s arbitrary: pre)
  case Nil
  then show ?case by simp
next
  case (Cons c cs)
  show ?case
  proof (cases "c = 0x2E \<and> lo \<le> length cs \<and> length cs \<le> hi \<and> list_all is_word cs")
    case True
    with Cons.prems have "pre = []" "m = c # cs" by simp_all
    with True show ?thesis by simp
  next
    case False
    with Cons.prems
    have "map_option (\<lambda>(pre, m). (c # pre, m)) (match_ext lo hi cs) = Some (pre, m)"
      by simp
    then obtain pre' where p: "match_ext lo hi cs = Some (pre', m)" "pre = c # pre'"
      by (cases "match_ext lo hi cs") auto
    from Cons.IH [OF p(1)] p(2) show ?thesis by simp
  qed
qed

lemma toLowerCase_ascii: "list_all is_ascii s \<Longrightarrow> toLowerCase U s = map ascii_lower s"
  by (simp add: toLowerCase_def)

lemma ascii_lower_dot: "ascii_lower 0x2E = 0x2E"
  by (simp add: ascii_lower_def is_upper_def)

text \<open>
  C3. A filename that ends with a dot and 2 to 5 word characters gets that suffix
  lower-cased, whatever the mime argument is (a mapped or unmapped string, or
  \<open>undefined\<close>); \<open>photo.JPG\<close> with \<open>image/png\<close> gives \<open>.jpg\<close>.
\<close>

theorem getExtension_filename_suffix:
  "(2 \<le> length w \<and> length w \<le> 5 \<and> list_all is_word w \<longrightarrow>
      getExtension U (Some (p @ 0x2E # w)) m = JString (toLowerCase U (0x2E # w)) \<and>
      toLowerCase U (0x2E # w) = 0x2E # map ascii_lower w) \<and>
   getExtension U (Some (js ''photo.JPG'')) (Some (js ''image/png'')) = JString (js ''.jpg'')"
proof (intro conjI impI)
  assume a: "2 \<le> length w \<and> length w \<le> 5 \<and> list_all is_word w"
  then show "getExtension U (Some (p @ 0x2E # w)) m = JString (toLowerCase U (0x2E # w))"
    by (simp add: getExtension_def or_empty_def match_ext_Some)
  have "list_all is_ascii (0x2E # w)"
    using a by (auto simp: list_all_iff word_ascii) (simp add: is_ascii_def)
  then show "toLowerCase U (0x2E # w) = 0x2E # map ascii_lower w"
    by (simp add: toLowerCase_ascii ascii_lower_dot)
next
  show "getExtension U (Some (js ''photo.JPG'')) (Some (js ''image/png'')) = JString (js ''.jpg'')"
    by code_simp
qed

theorem getExtension_filename_suffix_witness:
  "2 \<le> length (js ''JPEG'') \<and> length (js ''JPEG'') \<le> 5 \<and> list_all is_word (js ''JPEG'') \<and>
   getExtension id (Some (js ''archive.tar.JPEG'')) None = JString (js ''.jpeg'')"
proof -
  have w: "2 \<le> length (js ''JPEG'') \<and> length (js ''JPEG'') \<le> 5 \<and> list_all is_word (js ''JPEG'')"
    by code_simp
  have s: "js ''archive.tar.JPEG'' = js ''archive.tar'' @ 0x2E # js ''JPEG''"
    by (simp add: js_def)
  have l: "0x2E # map ascii_lower (js ''JPEG'') = js ''.jpeg''"
    by code_simp
  have "getExtension id (Some (js ''archive.tar.JPEG'')) None = JString (js ''.jpeg'')"
    using getExtension_filename_suffix [of "js ''JPEG''" id "js ''archive.tar''" None] w
    by (simp only: s l)
  with w show ?thesis by simp
qed

lemma getExtensionFromMime_table:
  "getExtensionFromMime (Some (js ''image/jpeg'')) = JString (js ''.jpg'')"
  "getExtensionFromMime (Some (js ''image/png'')) = JString (js ''.png'')"
  "getExtensionFromMime (Some (js ''image/gif'')) = JString (js ''.gif'')"
  "getExtensionFromMime (Some (js ''image/webp'')) = JString (js ''.webp'')"
  "getExtensionFromMime (Some (js ''image/bmp'')) = JString (js ''.bmp'')"
  "getExtensionFromMime (Some (js ''image/svg+xml'')) = JString (js ''.svg'')"
  "getExtensionFromMime (Some (js ''image/x-icon'')) = JString (js ''.ico'')"
  "getExtensionFromMime (Some (js ''image/tiff'')) = JString (js ''.tiff'')"
  "getExtensionFromMime None = JString (js ''.png'')"
  by (simp_all add: getExtensionFromMime_def map_get_def mime_table_def
      object_prototype_keys_def js_def)

lemma getExtensionFromMime_unmapped:
  assumes "map_of mime_table k = None" "k \<notin> set object_prototype_keys"
  shows "getExtensionFromMime (Some k) = JString (js ''.png'')"
  using assms by (simp add: getExtensionFromMime_def map_get_def)

lemma getExtension_no_suffix:
  "match_ext 2 5 (or_empty f) = None \<Longrightarrow> getExtension U f m = getExtensionFromMime m"
  by (simp add: getExtension_def)

text \<open>
  C4 says that without such a suffix the result is the table entry of the mime type, or
  \<open>.png\<close> when the mime type is absent or not in the table, and always a string
  beginning with a dot. The lemmas above give that for the eight rows, for
  \<open>undefined\<close> and for every key found nowhere on the prototype chain. For the
  unmapped mime string \<open>constructor\<close> the lookup \<open>map[mime]\<close> finds the inherited
  member of \<open>Object.prototype\<close>, which is truthy, so the default is not taken and
  the result is not a string.
\<close>

theorem getExtension_inherited_key:
  "getExtension U None (Some (js ''constructor'')) = JInherited (js ''constructor'') \<and>
   getExtension U None (Some (js ''constructor'')) \<noteq> JString (js ''.png'') \<and>
   \<not> is_dot_string (getExtension U None (Some (js ''constructor'')))"
  by (simp add: getExtension_def or_empty_def getExtensionFromMime_def map_get_def
      mime_table_def object_prototype_keys_def is_dot_string_def js_def)

section \<open>Properties of sanitizeFilename\<close>

lemma toLowerCase_kept:
  "list_all is_kept s \<Longrightarrow> toLowerCase U s = map ascii_lower s"
  by (simp add: toLowerCase_def list_all_iff kept_ascii)

lemma set_collapse: "set (collapse s) \<subseteq> set s"
proof (induction s rule: collapse.induct)
  case (3 c d cs)
  then show ?case
    by (auto simp: is_hyphen_def dest: set_dropWhileD)
qed simp_all

lemma strip_trailing_rev: "strip_trailing s = rev (dropWhile is_hyphen (rev s))"
proof (induction s)
  case Nil
  then show ?case by simp
next
  case (Cons c cs)
  show ?case
  proof (cases "list_all is_hyphen cs")
    case True
    then have "dropWhile is_hyphen (rev cs) = []"
      by (simp add: list_all_iff)
    then show ?thesis
      using True Cons.IH by (simp add: dropWhile_append list_all_iff)
  next
    case False
    then have "dropWhile is_hyphen (rev cs) \<noteq> []"
      by (simp add: list_all_iff)
    then show ?thesis
      using False Cons.IH by (auto simp: dropWhile_append list_all_iff)
  qed
qed

lemma strip_trailing_prefix:
  "\<exists>t. s = strip_trailing s @ t \<and> list_all is_hyphen t"
proof -
  have "rev s = takeWhile is_hyphen (rev s) @ dropWhile is_hyphen (rev s)" by simp
  then have "s = rev (dropWhile is_hyphen (rev s)) @ rev (takeWhile is_hyphen (rev s))"
    by (metis rev_append rev_rev_ident)
  moreover have "list_all is_hyphen (rev (takeWhile is_hyphen (rev s)))"
    by (auto simp: list_all_iff dest: set_takeWhileD)
  ultimately show ?thesis
    by (metis strip_trailing_rev)
qed

lemma strip_trailing_last:
  "strip_trailing s \<noteq> [] \<Longrightarrow> \<not> is_hyphen (last (strip_trailing s))"
  by (simp add: strip_trailing_rev last_rev hd_dropWhile)

lemma set_strip_trailing: "set (strip_trailing s) \<subseteq> set s"
  by (auto simp: strip_trailing_rev dest: set_dropWhileD)

lemma length_strip_trailing: "length (strip_trailing s) \<le> length s"
  by (simp add: strip_trailing_rev length_dropWhile_le [of is_hyphen "rev s", simplified])

lemma set_trim_hyphens: "set (trim_hyphens s) \<subseteq> set s"
  using set_strip_trailing [of "dropWhile is_hyphen s"]
  by (auto simp: trim_hyphens_def dest: set_dropWhileD)

lemma lowered_out:
  "list_all is_out_char (toLowerCase U (filter is_kept s))"
proof -
  have "toLowerCase U (filter is_kept s) = map ascii_lower (filter is_kept s)"
    by (rule toLowerCase_kept) (simp add: list_all_iff)
  then show ?thesis
    by (simp add: list_all_iff kept_lower_out)
qed

lemma sanitize_seven_out: "list_all is_out_char (sanitize_seven U s)"
proof -
  let ?low = "toLowerCase U (filter is_kept (hyphenate (remove_ext
                (trim (filter (\<lambda>c. \<not> is_quote c) s)))))"
  have "set (trim_hyphens (collapse ?low)) \<subseteq> set ?low"
    using set_trim_hyphens [of "collapse ?low"] set_collapse [of ?low] by blast
  moreover have "list_all is_out_char ?low" by (rule lowered_out)
  ultimately show ?thesis
    by (auto simp: sanitize_seven_def Let_def list_all_iff)
qed

lemma substring_0: "substring s 0 n = take n s"
  by (simp add: substring_def)

lemma sanitize_eight_out: "list_all is_out_char (sanitize_eight U s)"
  using sanitize_seven_out [of U s] set_strip_trailing [of "take 60 (sanitize_seven U s)"]
  by (auto simp: sanitize_eight_def Let_def substring_0 list_all_iff dest: in_set_takeD)

lemma sanitize_eight_length: "length (sanitize_eight U s) \<le> 60"
  using length_strip_trailing [of "take 60 (sanitize_seven U s)"]
  by (simp add: sanitize_eight_def Let_def substring_0)

lemma fallback_out: "list_all is_out_char (js ''unnamed-file'')"
  by code_simp

lemma fallback_length: "length (js ''unnamed-file'') = 12"
  by (simp add: js_def)

text \<open>Each step on a string it has nothing to do with.\<close>

lemma dropWhile_none: "\<forall>x\<in>set xs. \<not> P x \<Longrightarrow> dropWhile P xs = xs"
  by (cases xs) auto

lemma dropWhile_all: "\<forall>x\<in>set xs. P x \<Longrightarrow> dropWhile P xs = []"
  by simp

lemma filter_quote_id: "list_all is_out_char t \<Longrightarrow> filter (\<lambda>c. \<not> is_quote c) t = t"
  by (simp add: list_all_iff out_not_quote)

lemma trim_id: "list_all is_out_char t \<Longrightarrow> trim t = t"
  by (simp add: trim_def list_all_iff out_not_space dropWhile_none)

lemma match_ext_no_dot: "0x2E \<notin> set t \<Longrightarrow> match_ext lo hi t = None"
  by (induction t) auto

lemma remove_ext_id: "list_all is_out_char t \<Longrightarrow> remove_ext t = t"
proof -
  assume "list_all is_out_char t"
  then have "0x2E \<notin> set t"
    using out_not_dot by (auto simp: list_all_iff)
  then show ?thesis by (simp add: remove_ext_def match_ext_no_dot)
qed

lemma hyphenate_id: "list_all is_out_char t \<Longrightarrow> hyphenate t = t"
  by (induction t) (simp_all add: out_not_space_us)

lemma filter_kept_id: "list_all is_out_char t \<Longrightarrow> filter is_kept t = t"
  by (simp add: list_all_iff out_kept)

lemma toLowerCase_id: "list_all is_out_char t \<Longrightarrow> toLowerCase U t = t"
proof -
  assume a: "list_all is_out_char t"
  then have "list_all is_kept t" by (simp add: list_all_iff out_kept)
  then have "toLowerCase U t = map ascii_lower t" by (rule toLowerCase_kept)
  also have "\<dots> = t" using a by (simp add: list_all_iff out_lower_id map_idI)
  finally show ?thesis .
qed

lemma first_five_id:
  assumes "list_all is_out_char t"
  shows "toLowerCase U (filter is_kept (hyphenate (remove_ext
           (trim (filter (\<lambda>c. \<not> is_quote c) t))))) = t"
  using assms
  by (simp add: filter_quote_id trim_id remove_ext_id hyphenate_id filter_kept_id toLowerCase_id)

lemma sanitize_seven_clean:
  "list_all is_out_char t \<Longrightarrow> sanitize_seven U t = trim_hyphens (collapse t)"
  by (simp add: sanitize_seven_def Let_def first_five_id)

lemma trim_hyphens_all: "list_all is_hyphen t \<Longrightarrow> trim_hyphens t = []"
  by (simp add: trim_hyphens_def list_all_iff dropWhile_all)

lemma sanitize_seven_hyphens:
  assumes "list_all is_hyphen s"
  shows "sanitize_seven U s = []"
proof -
  have "list_all is_out_char s"
    using assms by (simp add: list_all_iff hyphen_out)
  moreover have "list_all is_hyphen (collapse s)"
    using assms set_collapse [of s] by (auto simp: list_all_iff)
  ultimately show ?thesis
    by (simp add: sanitize_seven_clean trim_hyphens_all)
qed

lemma space_not_quote: "is_space c \<Longrightarrow> \<not> is_quote c"
  unfolding char_class_defs by (auto simp: word_le_nat_alt)

lemma sanitize_seven_spaces:
  assumes "list_all is_space s"
  shows "sanitize_seven U s = []"
proof -
  have "filter (\<lambda>c. \<not> is_quote c) s = s"
    using assms by (simp add: list_all_iff space_not_quote)
  moreover have "trim s = []"
    using assms by (simp add: trim_def list_all_iff dropWhile_all)
  ultimately show ?thesis
    by (simp add: sanitize_seven_def Let_def remove_ext_def toLowerCase_def trim_hyphens_def)
qed

text \<open>
  C1. For every input the result of \<open>sanitizeFilename\<close> matches \<open>^[a-z0-9-]*$\<close>, has at
  most 60 code units and is not empty; whenever the eight steps leave the empty string,
  as they do for the empty input, for whitespace only and for hyphens only, the result
  is \<open>unnamed-file\<close>.
\<close>

theorem sanitize_safe:
  "matches_safe (sanitizeFilename U s) \<and>
   length (sanitizeFilename U s) \<le> 60 \<and>
   sanitizeFilename U s \<noteq> [] \<and>
   (sanitize_eight U s = [] \<longrightarrow> sanitizeFilename U s = js ''unnamed-file'') \<and>
   (s = [] \<or> list_all is_space s \<or> list_all is_hyphen s \<longrightarrow>
      sanitizeFilename U s = js ''unnamed-file'')"
proof (intro conjI impI)
  show "matches_safe (sanitizeFilename U s)"
    using sanitize_eight_out [of U s] fallback_out
    by (simp add: sanitizeFilename_def Let_def matches_safe_def)
  show "length (sanitizeFilename U s) \<le> 60"
    using sanitize_eight_length [of U s]
    by (simp add: sanitizeFilename_def Let_def fallback_length)
  show "sanitizeFilename U s \<noteq> []"
    using fallback_length by (auto simp: sanitizeFilename_def Let_def)
  show "sanitize_eight U s = [] \<Longrightarrow> sanitizeFilename U s = js ''unnamed-file''"
    by (simp add: sanitizeFilename_def)
  assume "s = [] \<or> list_all is_space s \<or> list_all is_hyphen s"
  then have "sanitize_seven U s = []"
    using sanitize_seven_spaces [of s U] sanitize_seven_hyphens [of s U] by auto
  then show "sanitizeFilename U s = js ''unnamed-file''"
    by (simp add: sanitizeFilename_def sanitize_eight_def)
qed

theorem sanitize_safe_witness:
  "sanitize_eight id (js ''---'') = [] \<and> list_all is_hyphen (js ''---'') \<and>
   sanitizeFilename id (js ''---'') = js ''unnamed-file'' \<and>
   matches_safe (js ''unnamed-file'')"
proof -
  have e: "sanitize_eight id (js ''---'') = []" by code_simp
  have h: "list_all is_hyphen (js ''---'')" by code_simp
  from sanitize_safe [of id "js ''---''"] e
  have r: "sanitizeFilename id (js ''---'') = js ''unnamed-file''" by blast
  from sanitize_safe [of id "js ''---''"]
  have "matches_safe (sanitizeFilename id (js ''---''))" by blast
  with r have "matches_safe (js ''unnamed-file'')" by simp
  with e h r show ?thesis by blast
qed

lemma collapse_Nil_iff: "collapse s = [] \<longleftrightarrow> s = []"
  by (cases s rule: collapse.cases) simp_all

lemma hd_collapse: "hd (collapse s) = hd s"
  by (cases s rule: collapse.cases) (simp_all add: is_hyphen_def)

lemma no_double_Cons:
  "no_double (x # xs) \<longleftrightarrow> (xs = [] \<or> \<not> (is_hyphen x \<and> is_hyphen (hd xs))) \<and> no_double xs"
  by (cases xs) (auto simp: no_double_def)

lemma no_double_Nil: "no_double []"
  by (simp add: no_double_def)

lemma no_double_appendD:
  "no_double (xs @ ys) \<Longrightarrow> no_double xs \<and> no_double ys"
  by (simp add: no_double_def successively_append_iff)

lemma no_double_dropWhile: "no_double s \<Longrightarrow> no_double (dropWhile P s)"
  using no_double_appendD [of "takeWhile P s" "dropWhile P s"] by simp

lemma no_double_take: "no_double s \<Longrightarrow> no_double (take n s)"
  using no_double_appendD [of "take n s" "drop n s"] by simp

lemma no_double_strip_trailing: "no_double s \<Longrightarrow> no_double (strip_trailing s)"
proof -
  assume a: "no_double s"
  obtain t where "s = strip_trailing s @ t"
    using strip_trailing_prefix [of s] by blast
  with a show ?thesis
    using no_double_appendD [of "strip_trailing s" t] by simp
qed

lemma no_double_collapse: "no_double (collapse s)"
proof (induction s rule: collapse.induct)
  case 1
  then show ?case by (simp add: no_double_Nil)
next
  case (2 c)
  then show ?case by (simp add: no_double_Cons no_double_Nil)
next
  case (3 c d cs)
  show ?case
  proof (cases "is_hyphen c \<and> is_hyphen d")
    case True
    let ?r = "dropWhile is_hyphen cs"
    have "?r \<noteq> [] \<Longrightarrow> \<not> is_hyphen (hd (collapse ?r))"
      by (simp add: hd_collapse hd_dropWhile)
    then show ?thesis
      using True 3(1) by (auto simp: no_double_Cons collapse_Nil_iff)
  next
    case False
    then show ?thesis
      using 3(2) by (auto simp: no_double_Cons hd_collapse)
  qed
qed

lemma collapse_id: "no_double s \<Longrightarrow> collapse s = s"
proof (induction s rule: collapse.induct)
  case (3 c d cs)
  then show ?case by (auto simp: no_double_Cons)
qed simp_all

lemma hd_strip_trailing: "strip_trailing s \<noteq> [] \<Longrightarrow> hd (strip_trailing s) = hd s"
  using strip_trailing_prefix [of s] by (metis hd_append2)

lemma strip_trailing_nonempty: "s \<noteq> [] \<Longrightarrow> \<not> is_hyphen (hd s) \<Longrightarrow> strip_trailing s \<noteq> []"
  by (cases s) auto

lemma strip_trailing_id: "s \<noteq> [] \<Longrightarrow> \<not> is_hyphen (last s) \<Longrightarrow> strip_trailing s = s"
proof -
  assume a: "s \<noteq> []" "\<not> is_hyphen (last s)"
  then have "\<not> is_hyphen (hd (rev s))" by (simp add: hd_rev)
  then have "dropWhile is_hyphen (rev s) = rev s"
    by (simp add: dropWhile_eq_self_iff)
  then show ?thesis by (simp add: strip_trailing_rev)
qed

lemma trim_hyphens_id:
  "s \<noteq> [] \<Longrightarrow> \<not> is_hyphen (hd s) \<Longrightarrow> \<not> is_hyphen (last s) \<Longrightarrow> trim_hyphens s = s"
proof -
  assume a: "s \<noteq> []" "\<not> is_hyphen (hd s)" "\<not> is_hyphen (last s)"
  then have "dropWhile is_hyphen s = s" by (simp add: dropWhile_eq_self_iff)
  then show ?thesis using a by (simp add: trim_hyphens_def strip_trailing_id)
qed

lemma trim_hyphens_ends:
  assumes "trim_hyphens s \<noteq> []"
  shows "\<not> is_hyphen (hd (trim_hyphens s)) \<and> \<not> is_hyphen (last (trim_hyphens s))"
proof -
  let ?d = "dropWhile is_hyphen s"
  have ne: "?d \<noteq> []"
  proof
    assume "?d = []"
    then have "trim_hyphens s = []" by (simp only: trim_hyphens_def strip_trailing.simps)
    with assms show False by simp
  qed
  then have "\<not> is_hyphen (hd ?d)" by (rule hd_dropWhile)
  moreover have "hd (strip_trailing ?d) = hd ?d"
    using assms by (simp add: trim_hyphens_def hd_strip_trailing)
  moreover have "\<not> is_hyphen (last (strip_trailing ?d))"
    using assms by (simp add: trim_hyphens_def strip_trailing_last)
  ultimately show ?thesis by (simp add: trim_hyphens_def)
qed

lemma no_double_trim_hyphens: "no_double s \<Longrightarrow> no_double (trim_hyphens s)"
  by (simp add: trim_hyphens_def no_double_dropWhile no_double_strip_trailing)

lemma sanitize_seven_no_double: "no_double (sanitize_seven U s)"
  by (simp add: sanitize_seven_def Let_def no_double_trim_hyphens no_double_collapse)

lemma sanitize_seven_ends:
  "sanitize_seven U s \<noteq> [] \<Longrightarrow>
   \<not> is_hyphen (hd (sanitize_seven U s)) \<and> \<not> is_hyphen (last (sanitize_seven U s))"
  unfolding sanitize_seven_def Let_def by (rule trim_hyphens_ends)

text \<open>The truncated name when the seventh value is longer than 60.\<close>

lemma truncated_props:
  assumes "60 < length x" "\<not> is_hyphen (hd x)"
  shows "strip_trailing (take 60 x) \<noteq> []"
    and "hd (strip_trailing (take 60 x)) = hd x"
    and "\<not> is_hyphen (last (strip_trailing (take 60 x)))"
proof -
  have ne: "take 60 x \<noteq> []" using assms(1) by auto
  have h: "hd (take 60 x) = hd x" using assms(1) by (cases x) auto
  show n: "strip_trailing (take 60 x) \<noteq> []"
    using ne h assms(2) by (simp add: strip_trailing_nonempty)
  show "hd (strip_trailing (take 60 x)) = hd x"
    using n h by (simp add: hd_strip_trailing)
  show "\<not> is_hyphen (last (strip_trailing (take 60 x)))"
    using n by (rule strip_trailing_last)
qed

lemma sanitize_eight_long:
  "60 < length (sanitize_seven U s) \<Longrightarrow>
   sanitize_eight U s = strip_trailing (take 60 (sanitize_seven U s))"
  by (simp add: sanitize_eight_def Let_def substring_0)

lemma sanitize_eight_short:
  "length (sanitize_seven U s) \<le> 60 \<Longrightarrow> sanitize_eight U s = sanitize_seven U s"
  by (simp add: sanitize_eight_def Let_def)

lemma sanitize_eight_clean:
  assumes "sanitize_eight U s \<noteq> []"
  shows "is_clean_name (sanitize_eight U s)"
proof (cases "60 < length (sanitize_seven U s)")
  case True
  let ?x = "sanitize_seven U s"
  have xne: "?x \<noteq> []" using True by auto
  then have e: "\<not> is_hyphen (hd ?x)" using sanitize_seven_ends by blast
  have "no_double (strip_trailing (take 60 ?x))"
    by (simp add: no_double_strip_trailing no_double_take sanitize_seven_no_double)
  then show ?thesis
    using truncated_props [OF True e] sanitize_eight_out [of U s] sanitize_eight_length [of U s]
    by (simp add: is_clean_name_def sanitize_eight_long [OF True] e)
next
  case False
  then have eq: "sanitize_eight U s = sanitize_seven U s"
    by (simp add: sanitize_eight_short)
  then show ?thesis
    using assms sanitize_seven_ends [of U s] sanitize_seven_no_double [of U s]
      sanitize_eight_out [of U s] sanitize_eight_length [of U s]
    by (simp add: is_clean_name_def)
qed

lemma fallback_clean: "is_clean_name (js ''unnamed-file'')"
  by code_simp

lemma sanitizeFilename_clean: "is_clean_name (sanitizeFilename U s)"
  using sanitize_eight_clean [of U s] fallback_clean
  by (simp add: sanitizeFilename_def Let_def)

lemma clean_name_fixed:
  assumes "is_clean_name t"
  shows "sanitizeFilename U t = t"
proof -
  from assms have o: "list_all is_out_char t" and l: "length t \<le> 60" and n: "no_double t"
    and ne: "t \<noteq> []" and h: "\<not> is_hyphen (hd t)" "\<not> is_hyphen (last t)"
    by (simp_all add: is_clean_name_def)
  have "sanitize_seven U t = trim_hyphens (collapse t)"
    using o by (rule sanitize_seven_clean)
  also have "\<dots> = t"
    using n ne h by (simp add: collapse_id trim_hyphens_id)
  finally have "sanitize_seven U t = t" .
  then show ?thesis
    using l ne by (simp add: sanitizeFilename_def sanitize_eight_def Let_def)
qed

text \<open>
  C9. \<open>sanitizeFilename\<close> is idempotent: every result, the fallback \<open>unnamed-file\<close>
  among them, is mapped to itself.
\<close>

theorem sanitize_idempotent:
  "sanitizeFilename U (sanitizeFilename U s) = sanitizeFilename U s \<and>
   sanitizeFilename U (js ''unnamed-file'') = js ''unnamed-file''"
  using clean_name_fixed [OF sanitizeFilename_clean] clean_name_fixed [OF fallback_clean]
  by simp

text \<open>
  C6. When the seventh value of \<open>clean\<close> is longer than 60 the result is its first 60
  code units without the hyphens that end them; the result never has more than 60 code
  units and never ends with a hyphen, and 100 letters \<open>a\<close> give exactly 60 of them.
\<close>

theorem sanitize_truncates:
  "(60 < length (sanitize_seven U s) \<longrightarrow>
      sanitizeFilename U s = strip_trailing (take 60 (sanitize_seven U s)) \<and>
      (\<exists>t. take 60 (sanitize_seven U s) = sanitizeFilename U s @ t \<and> list_all is_hyphen t)) \<and>
   length (sanitizeFilename U s) \<le> 60 \<and>
   \<not> is_hyphen (last (sanitizeFilename U s)) \<and>
   sanitizeFilename U (replicate 100 0x61) = replicate 60 0x61"
proof (intro conjI impI)
  assume long: "60 < length (sanitize_seven U s)"
  let ?x = "sanitize_seven U s"
  have "?x \<noteq> []" using long by auto
  then have e: "\<not> is_hyphen (hd ?x)" using sanitize_seven_ends by blast
  have "sanitize_eight U s \<noteq> []"
    using truncated_props(1) [OF long e] by (simp add: sanitize_eight_long [OF long])
  then show r: "sanitizeFilename U s = strip_trailing (take 60 ?x)"
    by (simp add: sanitizeFilename_def Let_def sanitize_eight_long [OF long])
  show "\<exists>t. take 60 ?x = sanitizeFilename U s @ t \<and> list_all is_hyphen t"
    using strip_trailing_prefix [of "take 60 ?x"] by (simp only: r)
next
  show "length (sanitizeFilename U s) \<le> 60"
    using sanitizeFilename_clean [of U s] by (simp add: is_clean_name_def)
  show "\<not> is_hyphen (last (sanitizeFilename U s))"
    using sanitizeFilename_clean [of U s] by (simp add: is_clean_name_def)
  have "list_all is_out_char (replicate 100 (0x61 :: jschar))"
    by (simp add: list_all_iff char_class_defs)
  then have "sanitize_seven U (replicate 100 0x61) = trim_hyphens (collapse (replicate 100 0x61))"
    by (rule sanitize_seven_clean)
  also have "\<dots> = replicate 100 0x61"
    by code_simp
  finally have "sanitize_seven U (replicate 100 0x61) = replicate 100 0x61" .
  then have "sanitize_eight U (replicate 100 0x61) = strip_trailing (take 60 (replicate 100 0x61))"
    by (simp add: sanitize_eight_def Let_def substring_0)
  also have "\<dots> = replicate 60 0x61"
    by code_simp
  finally show "sanitizeFilename U (replicate 100 0x61) = replicate 60 0x61"
    by (simp add: sanitizeFilename_def Let_def)
qed

theorem sanitize_truncates_witness:
  "60 < length (sanitize_seven id (replicate 59 0x61 @ js ''-bcdefgh'')) \<and>
   take 60 (sanitize_seven id (replicate 59 0x61 @ js ''-bcdefgh'')) = replicate 59 0x61 @ js ''-'' \<and>
   sanitizeFilename id (replicate 59 0x61 @ js ''-bcdefgh'') = replicate 59 0x61"
proof -
  let ?s = "replicate 59 0x61 @ js ''-bcdefgh''"
  have l: "60 < length (sanitize_seven id ?s)" by code_simp
  have t: "take 60 (sanitize_seven id ?s) = replicate 59 0x61 @ js ''-''" by code_simp
  have r: "strip_trailing (replicate 59 0x61 @ js ''-'') = replicate 59 0x61" by code_simp
  from sanitize_truncates [of id ?s] l
  have "sanitizeFilename id ?s = strip_trailing (take 60 (sanitize_seven id ?s))" by blast
  then have "sanitizeFilename id ?s = replicate 59 0x61" by (simp only: t r)
  with l t show ?thesis by blast
qed

subsection \<open>The steps of the specification\<close>

lemma spec_step1_eq: "spec_step1 s = trim (filter (\<lambda>c. \<not> is_quote c) s)"
proof -
  have "(\<lambda>c. c \<notin> {0x60, 0x22, 0x27}) = (\<lambda>c :: jschar. \<not> is_quote c)"
    by (auto simp: is_quote_def)
  then show ?thesis by (simp add: spec_step1_def)
qed

lemma has_dot_ext_split:
  assumes "has_dot_ext k s"
  shows "s = take (length s - Suc k) s @ 0x2E # drop (length s - k) s \<and>
         length (drop (length s - k) s) = k \<and> list_all is_word (drop (length s - k) s)"
proof -
  from assms have k: "k < length s" and d: "s ! (length s - Suc k) = 0x2E"
    and w: "list_all is_word (drop (length s - k) s)"
    by (simp_all add: has_dot_ext_def)
  have i: "length s - Suc k < length s" using k by simp
  have "Suc (length s - Suc k) = length s - k" using k by simp
  with id_take_nth_drop [OF i] d
  have "s = take (length s - Suc k) s @ 0x2E # drop (length s - k) s" by simp
  moreover have "length (drop (length s - k) s) = k" using k by simp
  ultimately show ?thesis using w by simp
qed

lemma has_dot_ext_append:
  assumes "list_all is_word w"
  shows "has_dot_ext (length w) (p @ 0x2E # w)"
  using assms by (simp add: has_dot_ext_def nth_append)

lemma find_SomeD: "find P xs = Some x \<Longrightarrow> P x \<and> x \<in> set xs"
  by (induction xs) (auto split: if_splits)

lemma spec_step2_eq: "spec_step2 s = remove_ext s"
proof (cases "find (\<lambda>k. has_dot_ext k s) [2, 3, 4]")
  case None
  then have n: "\<not> (\<exists>k. k \<in> set [2, 3, 4] \<and> has_dot_ext k s)"
    using find_None_iff [of "\<lambda>k. has_dot_ext k s" "[2, 3, 4]"] by blast
  have no: "\<not> has_dot_ext k s" if "k \<in> {2, 3, 4}" for k
    using n that by auto
  have "match_ext 2 4 s = None"
  proof (rule ccontr)
    assume "match_ext 2 4 s \<noteq> None"
    then obtain pre m where "match_ext 2 4 s = Some (pre, m)" by auto
    from match_ext_SomeD [OF this]
    obtain w where s: "s = pre @ 0x2E # w" and l: "2 \<le> length w" "length w \<le> 4"
      and w: "list_all is_word w" by auto
    have "has_dot_ext (length w) s"
      unfolding s using w by (rule has_dot_ext_append)
    moreover have "length w \<in> {2, 3, 4}" using l by auto
    ultimately show False using no by blast
  qed
  with None show ?thesis by (simp add: spec_step2_def remove_ext_def)
next
  case (Some k)
  from find_SomeD [OF Some] have h: "has_dot_ext k s" and k: "k \<in> {2, 3, 4}" by auto
  let ?p = "take (length s - Suc k) s" and ?w = "drop (length s - k) s"
  from has_dot_ext_split [OF h]
  have s: "s = ?p @ 0x2E # ?w" and l: "length ?w = k" and w: "list_all is_word ?w"
    by blast+
  have "match_ext 2 4 (?p @ 0x2E # ?w) = Some (?p, 0x2E # ?w)"
    using k l w by (intro match_ext_Some) auto
  then have "match_ext 2 4 s = Some (?p, 0x2E # ?w)"
    using s by simp
  with Some show ?thesis by (simp add: spec_step2_def remove_ext_def)
qed

lemma squeeze_True: "squeeze P True s = squeeze P False (dropWhile P s)"
  by (induction s) simp_all

lemma hyphenate_squeeze: "hyphenate s = squeeze is_space_us False s"
  by (induction s rule: hyphenate.induct) (simp_all add: squeeze_True)

lemma spec_step3_eq: "spec_step3 s = hyphenate s"
proof -
  have "(\<lambda>c. is_space c \<or> c = 0x5F) = is_space_us"
    by (simp add: fun_eq_iff is_space_us_def)
  then show ?thesis by (simp add: spec_step3_def hyphenate_squeeze)
qed

lemma spec_step4_eq: "spec_step4 s = filter is_kept s"
proof -
  have "(\<lambda>c. is_lower c \<or> is_upper c \<or> is_digit c \<or> c = 0x2D) = is_kept"
    by (simp add: fun_eq_iff is_kept_def is_hyphen_def)
  then show ?thesis by (simp add: spec_step4_def)
qed

lemma collapse_squeeze: "collapse s = squeeze is_hyphen False s"
proof (induction s rule: collapse.induct)
  case 1
  then show ?case by simp
next
  case (2 c)
  then show ?case by (simp add: is_hyphen_def)
next
  case (3 c d cs)
  show ?case
  proof (cases "is_hyphen c \<and> is_hyphen d")
    case True
    then show ?thesis using 3(1) by (simp add: squeeze_True)
  next
    case False
    then show ?thesis using 3(2) by (auto simp: is_hyphen_def)
  qed
qed

lemma is_hyphen_eq: "(\<lambda>c. c = 0x2D) = is_hyphen"
  by (simp add: fun_eq_iff is_hyphen_def)

lemma spec_step6_eq: "spec_step6 s = collapse s"
  by (simp add: spec_step6_def collapse_squeeze is_hyphen_eq)

lemma spec_step7_eq: "spec_step7 s = trim_hyphens s"
  by (simp add: spec_step7_def trim_hyphens_def strip_trailing_rev is_hyphen_eq)

lemma spec_seven_eq:
  "spec_step7 (spec_step6 (spec_step5 (spec_step4 (spec_step3 (spec_step2 (spec_step1 s))))))
   = sanitize_seven U s"
proof -
  have "spec_step5 (filter is_kept x) = toLowerCase U (filter is_kept x)" for x
    by (simp add: spec_step5_def toLowerCase_kept list_all_iff)
  then show ?thesis
    by (simp add: sanitize_seven_def Let_def spec_step1_eq spec_step2_eq spec_step3_eq
        spec_step4_eq spec_step6_eq spec_step7_eq)
qed

lemma strip_trailing_snoc: "is_hyphen h \<Longrightarrow> strip_trailing (b @ [h]) = strip_trailing b"
  by (simp add: strip_trailing_rev)

lemma strip_trailing_single:
  assumes "no_double t"
  shows "strip_trailing t = (if t \<noteq> [] \<and> is_hyphen (last t) then butlast t else t)"
proof (cases "t \<noteq> [] \<and> is_hyphen (last t)")
  case False
  then show ?thesis by (cases "t = []") (simp_all add: strip_trailing_id)
next
  case True
  let ?b = "butlast t"
  have t: "t = ?b @ [last t]" using True by simp
  have "strip_trailing (?b @ [last t]) = strip_trailing ?b"
    using True by (intro strip_trailing_snoc) simp
  moreover have "strip_trailing ?b = ?b"
  proof (cases "?b = []")
    case True
    then show ?thesis by simp
  next
    case False
    have "no_double (?b @ [last t])" using assms t by simp
    then have "\<not> (is_hyphen (last ?b) \<and> is_hyphen (last t))"
      using False by (simp add: no_double_def successively_append_iff)
    with True have "\<not> is_hyphen (last ?b)" by simp
    with False show ?thesis by (rule strip_trailing_id)
  qed
  ultimately have "strip_trailing (?b @ [last t]) = ?b" by simp
  with t have "strip_trailing t = ?b" by simp
  with True show ?thesis by simp
qed

lemma spec_step8_eq: "spec_step8 (sanitize_seven U s) = sanitize_eight U s"
proof (cases "60 < length (sanitize_seven U s)")
  case True
  have "no_double (take 60 (sanitize_seven U s))"
    by (simp add: no_double_take sanitize_seven_no_double)
  from strip_trailing_single [OF this] show ?thesis
    by (simp add: spec_step8_def Let_def sanitize_eight_long [OF True] is_hyphen_def)
next
  case False
  then have t: "take 60 (sanitize_seven U s) = sanitize_seven U s" by simp
  have "sanitize_seven U s \<noteq> [] \<Longrightarrow> last (sanitize_seven U s) \<noteq> 0x2D"
    using sanitize_seven_ends [of U s] by (simp add: is_hyphen_def)
  then show ?thesis
    using False by (auto simp: spec_step8_def Let_def t sanitize_eight_short)
qed

text \<open>
  C5. \<open>sanitizeFilename\<close> is the composition of the eight steps in the order of the
  specification (strip quotes and trim, drop a trailing dot-extension of 2 to 4 word
  characters, hyphenate runs of whitespace and underscores, drop what is not a letter,
  digit or hyphen, lower-case, collapse runs of hyphens, trim hyphens at the edges,
  truncate), followed by the fallback; and the quoted \<open>Golden_Retriever Park!!\<close> with
  \<open>.png\<close> after it gives \<open>golden-retriever-park\<close>.
\<close>

theorem sanitize_eight_steps_in_order:
  "sanitizeFilename U s = spec_sanitize s \<and>
   sanitizeFilename U (js ''\"Golden_Retriever Park!!\".png'') = js ''golden-retriever-park''"
proof
  show "sanitizeFilename U s = spec_sanitize s"
    by (simp add: spec_sanitize_def sanitizeFilename_def Let_def
        spec_seven_eq [of s U] spec_step8_eq)
  show "sanitizeFilename U (js ''\"Golden_Retriever Park!!\".png'') = js ''golden-retriever-park''"
    by code_simp
qed

section \<open>Properties of the rename history\<close>

lemma list_history_logRename:
  "list_history (logRename now orig new st) =
     take 50 (event_of (now, orig, new) # list_history st)"
  by (simp add: logRename_def list_history_def event_of_def Let_def)

lemma take_append_take: "take n (xs @ take n ys) = take n (xs @ ys)"
  by (simp add: min_def)

lemma list_history_record_all:
  "calls \<noteq> [] \<Longrightarrow>
   list_history (record_all calls st) = take 50 (rev (map event_of calls) @ list_history st)"
proof (induction calls arbitrary: st)
  case Nil
  then show ?case by simp
next
  case (Cons c calls)
  obtain now orig new where c: "c = (now, orig, new)" by (cases c) auto
  show ?case
  proof (cases "calls = []")
    case True
    then show ?thesis by (simp add: c list_history_logRename)
  next
    case False
    from Cons.IH [OF False]
    have "list_history (record_all (c # calls) st) =
            take 50 (rev (map event_of calls) @ take 50 (event_of c # list_history st))"
      by (simp only: c record_all.simps list_history_logRename)
    also have "\<dots> = take 50 (rev (map event_of calls) @ event_of c # list_history st)"
      by (rule take_append_take)
    finally show ?thesis by simp
  qed
qed

text \<open>
  C2. The history never holds more than 50 events: the history read before the first
  write is empty, a history of at most 50 events has at most 50 after \<open>logRename\<close>, and
  60 calls in sequence from the empty history leave exactly 50 events, the first of
  them the event of the 60th call.
\<close>

theorem history_bounded:
  "length (list_history None) \<le> 50 \<and>
   (length (list_history st) \<le> 50 \<longrightarrow>
      length (list_history (logRename now orig new st)) \<le> 50) \<and>
   (length calls = 60 \<longrightarrow>
      length (list_history (record_all calls None)) = 50 \<and>
      list_history (record_all calls None) ! 0 = event_of (calls ! 59))"
proof (intro conjI impI)
  show "length (list_history None) \<le> 50" by (simp add: list_history_def)
  show "length (list_history (logRename now orig new st)) \<le> 50"
    by (simp add: list_history_logRename)
next
  assume len: "length calls = 60"
  then have ne: "calls \<noteq> []" by auto
  have eq: "list_history (record_all calls None) = take 50 (rev (map event_of calls))"
    using list_history_record_all [OF ne, of None] by (simp add: list_history_def)
  show "length (list_history (record_all calls None)) = 50"
    using len by (simp add: eq)
  show "list_history (record_all calls None) ! 0 = event_of (calls ! 59)"
    using len by (simp add: eq rev_nth)
qed

theorem history_bounded_witness:
  "length (list_history (Some [])) \<le> 50 \<and>
   length (list_history (logRename 7 None (js ''cat.png'') (Some []))) \<le> 50 \<and>
   length (map (\<lambda>i. (int i, Some (js ''a.png''), js ''b.png'')) [0..<60]) = 60 \<and>
   length (list_history
     (record_all (map (\<lambda>i. (int i, Some (js ''a.png''), js ''b.png'')) [0..<60]) None)) = 50 \<and>
   list_history
     (record_all (map (\<lambda>i. (int i, Some (js ''a.png''), js ''b.png'')) [0..<60]) None) ! 0 =
     \<lparr>original = Some (js ''a.png''), renamed = js ''b.png'', timestamp = 59\<rparr>"
proof -
  let ?calls = "map (\<lambda>i. (int i, Some (js ''a.png''), js ''b.png'')) [0..<60]"
  have l: "length ?calls = 60" by simp
  have s: "length (list_history (Some [])) \<le> 50" by (simp add: list_history_def)
  have e: "event_of (?calls ! 59) =
     \<lparr>original = Some (js ''a.png''), renamed = js ''b.png'', timestamp = 59\<rparr>"
    by (simp add: event_of_def)
  show ?thesis
    using history_bounded [of "Some []" 7 None "js ''cat.png''" ?calls] l s e
    by simp
qed

lemma newest_first_record_all:
  assumes "nondecreasing (map fst calls)"
  shows "newest_first (list_history (record_all calls None))"
proof (cases "calls = []")
  case True
  then show ?thesis by (simp add: newest_first_def list_history_def)
next
  case False
  have ts: "\<And>c. timestamp (event_of c) = fst c"
    by (simp add: event_of_def split: prod.splits)
  have "sorted_wrt (\<lambda>a b. a \<le> b) (map fst calls)"
    using assms by (simp add: nondecreasing_def)
  then have "sorted_wrt (\<lambda>a b. timestamp a \<le> timestamp b) (map event_of calls)"
    by (simp add: sorted_wrt_map ts)
  then have "sorted_wrt (\<lambda>a b. timestamp b \<le> timestamp a) (rev (map event_of calls))"
    by (simp add: sorted_wrt_rev)
  then have "sorted_wrt (\<lambda>a b. timestamp b \<le> timestamp a) (take 50 (rev (map event_of calls)))"
    by (rule sorted_wrt_take)
  then show ?thesis
    using list_history_record_all [OF False, of None]
    by (simp add: newest_first_def list_history_def)
qed

text \<open>
  C7. \<open>logRename\<close> builds the event with the clock reading of the call as its timestamp,
  puts it at index 0 and keeps the first 50 elements; and when the clock readings of a
  sequence of calls never decrease, the history that grows from the empty one has its
  timestamps non-increasing from head to tail.
\<close>

theorem record_prepends_newest_first:
  "list_history (logRename now orig new st) =
     take 50 (\<lparr>original = orig, renamed = new, timestamp = now\<rparr> # list_history st) \<and>
   list_history (logRename now orig new st) ! 0 =
     \<lparr>original = orig, renamed = new, timestamp = now\<rparr> \<and>
   (nondecreasing (map fst calls) \<longrightarrow> newest_first (list_history (record_all calls None)))"
  using newest_first_record_all [of calls]
  by (simp add: list_history_logRename event_of_def)

theorem record_prepends_newest_first_witness:
  "nondecreasing (map fst
     [(3, Some (js ''x.jpg''), js ''a.png''), (3, Some (js ''y.jpg''), js ''b.png''),
      (8, Some (js ''z.jpg''), js ''c.png'')]) \<and>
   newest_first (list_history (record_all
     [(3, Some (js ''x.jpg''), js ''a.png''), (3, Some (js ''y.jpg''), js ''b.png''),
      (8, Some (js ''z.jpg''), js ''c.png'')] None)) \<and>
   map timestamp (list_history (record_all
     [(3, Some (js ''x.jpg''), js ''a.png''), (3, Some (js ''y.jpg''), js ''b.png''),
      (8, Some (js ''z.jpg''), js ''c.png'')] None)) = [8, 3, 3]"
proof -
  let ?calls = "[(3, Some (js ''x.jpg''), js ''a.png''), (3, Some (js ''y.jpg''), js ''b.png''),
                 (8, Some (js ''z.jpg''), js ''c.png'')]
                  :: (int \<times> jsstring option \<times> jsstring) list"
  have n: "nondecreasing (map fst ?calls)" by (simp add: nondecreasing_def)
  have t: "map timestamp (list_history (record_all ?calls None)) = [8, 3, 3]"
    by (simp add: logRename_def list_history_def)
  have "nondecreasing (map fst ?calls) \<longrightarrow> newest_first (list_history (record_all ?calls None))"
    using record_prepends_newest_first [of 0 None "[]" None ?calls] by (elim conjE)
  with n have "newest_first (list_history (record_all ?calls None))" by (rule rev_mp)
  with n t show ?thesis by (intro conjI)
qed

section \<open>Properties of timeAgo\<close>

lemma js_append: "js (a @ b) = js a @ js b"
  by (simp add: js_def)

lemma int_div_less_iff:
  fixes a q n :: int
  assumes "0 < q"
  shows "a div q < n \<longleftrightarrow> a < n * q"
proof
  assume "a div q < n"
  then have "a div q + 1 \<le> n" by simp
  then have "(a div q + 1) * q \<le> n * q"
    using assms by (simp only: mult_right_mono less_imp_le)
  moreover have "a < (a div q + 1) * q"
  proof -
    have "(a div q + 1) * q = q * (a div q) + q" by (simp add: algebra_simps)
    with pos_mod_bound [OF assms, of a] mult_div_mod_eq [of q a] show ?thesis
      by linarith
  qed
  ultimately show "a < n * q" by linarith
next
  assume lt: "a < n * q"
  show "a div q < n"
  proof (rule ccontr)
    assume "\<not> a div q < n"
    then have "n \<le> a div q" by simp
    then have "n * q \<le> (a div q) * q"
      using assms by (simp only: mult_right_mono less_imp_le)
    moreover have "(a div q) * q \<le> a"
    proof -
      have "(a div q) * q = q * (a div q)" by simp
      with pos_mod_sign [OF assms, of a] mult_div_mod_eq [of q a] show ?thesis
        by linarith
    qed
    ultimately show False using lt by linarith
  qed
qed

text \<open>
  C8, as the specification words it, fails on the label of the first branch: the
  function returns \<open>Just now\<close> with a capital letter.
\<close>

theorem timeAgo_just_now_counterexample: "timeAgo 0 0 \<noteq> js ''just now''"
  by (simp add: timeAgo_def js_def)

text \<open>
  C8, amended. With the age \<open>now - ts\<close> in milliseconds, \<open>timeAgo\<close> returns
  \<open>Just now\<close> below 60 seconds, then the floor of seconds / 60 followed by \<open>m ago\<close>
  below 60 minutes, the floor of minutes / 60 followed by \<open>h ago\<close> below 24 hours, and
  the floor of hours / 24 followed by \<open>d ago\<close> from there on, where seconds is the
  floor of the age / 1000.
\<close>

theorem timeAgo_floor:
  "(now - ts < 60000 \<longrightarrow> timeAgo now ts = js ''Just now'') \<and>
   (60000 \<le> now - ts \<and> now - ts < 3600000 \<longrightarrow>
      timeAgo now ts = number_to_string ((now - ts) div 1000 div 60) @ js ''m ago'') \<and>
   (3600000 \<le> now - ts \<and> now - ts < 86400000 \<longrightarrow>
      timeAgo now ts = number_to_string ((now - ts) div 1000 div 60 div 60) @ js ''h ago'') \<and>
   (86400000 \<le> now - ts \<longrightarrow>
      timeAgo now ts = number_to_string ((now - ts) div 1000 div 60 div 60 div 24) @ js ''d ago'')"
proof -
  define a where "a = now - ts"
  have s: "a div 1000 < 60 \<longleftrightarrow> a < 60000"
    by (simp add: int_div_less_iff)
  have m: "a div 1000 div 60 < 60 \<longleftrightarrow> a < 3600000"
    by (simp add: int_div_less_iff)
  have h: "a div 1000 div 60 div 60 < 24 \<longleftrightarrow> a < 86400000"
    by (simp add: int_div_less_iff)
  show ?thesis
    unfolding timeAgo_def Let_def a_def [symmetric]
    by (simp add: s m h)
qed


theorem timeAgo_floor_witness:
  "timeAgo 59999 0 = js ''Just now'' \<and>
   timeAgo 3599999 0 = js ''59m ago'' \<and>
   timeAgo 86399999 0 = js ''23h ago'' \<and>
   timeAgo 1000000000 0 = js ''11d ago''"
proof -
  have n: "number_to_string 59 = js ''59''" "number_to_string 23 = js ''23''"
    "number_to_string 11 = js ''11''"
    by code_simp+
  show ?thesis
  using timeAgo_floor [of 59999 0] timeAgo_floor [of 3599999 0] timeAgo_floor [of 86399999 0]
    timeAgo_floor [of 1000000000 0] n
  by (simp add: js_append [symmetric])
qed

section \<open>Properties of the download listener\<close>

lemma not_isImageFile:
  assumes "\<not> startsWith (or_empty m) (js ''image/'')"
      and "\<forall>ext \<in> set IMAGE_EXTENSIONS. \<not> endsWith (toLowerCase U (or_empty f)) ext"
  shows "\<not> isImageFile U (Some (or_empty m)) (Some (or_empty f))"
  using assms by (simp add: isImageFile_def or_empty_def list_ex_iff Let_def)

text \<open>
  C10. For a download whose mime type does not start with \<open>image/\<close> and whose
  lower-cased filename ends with none of the seven image extensions, the listener calls
  \<open>suggest()\<close> with no replacement and nothing else, and does not return \<open>true\<close>:
  neither \<open>sanitizeFilename\<close>, \<open>getExtension\<close> nor \<open>logRename\<close> is called.
\<close>

theorem non_image_download_kept:
  assumes "\<not> startsWith (or_empty (item_mime downloadItem)) (js ''image/'')"
      and "\<forall>ext \<in> set IMAGE_EXTENSIONS.
             \<not> endsWith (toLowerCase U (or_empty (item_filename downloadItem))) ext"
  shows "onDeterminingFilename U env downloadItem = ([Suggest None], False) \<and>
         (\<forall>e \<in> set (fst (onDeterminingFilename U env downloadItem)). \<not> renames e)"
proof -
  have "\<not> isImageFile U (Some (or_empty (item_mime downloadItem)))
          (Some (or_empty (item_filename downloadItem)))"
    using assms by (rule not_isImageFile)
  then have "onDeterminingFilename U env downloadItem = ([Suggest None], False)"
    by (simp add: onDeterminingFilename_def Let_def)
  then show ?thesis by (simp add: renames_def)
qed

theorem non_image_download_kept_witness:
  "onDeterminingFilename id
     \<lparr>stored_settings = Some (True, js ''key''),
      fetched_image = Some (js ''application/pdf'', js ''AAAA''),
      gemini = Reply (Some (js ''quarterly report''))\<rparr>
     \<lparr>item_url = js ''https://example.org/report.pdf'',
      item_filename = Some (js ''report.pdf''),
      item_mime = Some (js ''application/pdf'')\<rparr> = ([Suggest None], False)"
proof -
  let ?item = "\<lparr>item_url = js ''https://example.org/report.pdf'',
      item_filename = Some (js ''report.pdf''),
      item_mime = Some (js ''application/pdf'')\<rparr>"
  have a: "\<not> startsWith (or_empty (item_mime ?item)) (js ''image/'')"
    by code_simp
  have b: "\<forall>ext \<in> set IMAGE_EXTENSIONS.
             \<not> endsWith (toLowerCase id (or_empty (item_filename ?item))) ext"
    by code_simp
  show ?thesis
    using non_image_download_kept [OF a b] by simp
qed

text \<open>An image download with an answer from the model does go through all three.\<close>

lemma image_download_renamed:
  "onDeterminingFilename id
     \<lparr>stored_settings = Some (True, js ''key''),
      fetched_image = Some (js ''image/png'', js ''AAAA''),
      gemini = Reply (Some (js '' Sunset Lake.png ''))\<rparr>
     \<lparr>item_url = js ''https://example.org/IMG_0001.PNG'',
      item_filename = Some (js ''IMG_0001.PNG''),
      item_mime = Some (js ''image/png'')\<rparr> =
   ([Sanitize (js ''Sunset Lake.png''),
     GetExtension (Some (js ''IMG_0001.PNG'')) (Some (js ''image/png'')),
     LogRename (Some (js ''IMG_0001.PNG'')) (js ''sunset-lake.png''),
     SetBadgeText (js ''AI''),
     Suggest (Some (js ''sunset-lake.png''))], True)"
  by code_simp

end
